theory Spec2Isabelle
  imports Complex_Main "HOL-Library.Word"
begin

unbundle bit_operations_syntax

section \<open>Bytes, exceptions and the serial port\<close>

text \<open>
  A Python \<open>bytes\<close> or \<open>bytearray\<close> object is a list of octets. The integers the
  program computes with (the running checksum, the sequence number) are Python's unbounded
  integers and are modelled as \<open>int\<close>; \<open>//\<close> and \<open>%\<close> are \<open>div\<close> and \<open>mod\<close>.
\<close>

type_synonym byte = "8 word"

datatype error = ValueError | IndexError | OverflowError | InvalidPort

text \<open>
  A procedure either finishes or raises; in both cases it leaves a state behind, the
  state at the point where the exception was raised in the second case.
\<close>

datatype 's outcome = Done 's | Raised error 's

text \<open>
  \<open>bytes([x, ...])\<close> raises \<open>ValueError\<close> unless every element is in \<open>range(256)\<close>.
\<close>

definition bytes :: "int list \<Rightarrow> error + byte list" where
  "bytes xs =
     (if list_all (\<lambda>x. 0 \<le> x \<and> x < 256) xs then Inr (map word_of_int xs)
      else Inl ValueError)"

text \<open>\<open>xs[i]\<close> for a constant, non-negative index: \<open>IndexError\<close> out of range.\<close>

definition getitem :: "byte list \<Rightarrow> nat \<Rightarrow> error + byte" where
  "getitem xs i = (if i < length xs then Inr (xs ! i) else Inl IndexError)"

text \<open>A bytes literal of ASCII characters.\<close>

definition ascii :: "string \<Rightarrow> byte list" where
  "ascii s = map of_char s"

text \<open>
  The serial port: \<open>rx\<close> holds the octets the peer delivers, in order, that have not been
  read yet; \<open>tx\<close> everything written so far; \<open>is_open\<close> is cleared by \<open>close()\<close>.
  A read of \<open>n\<close> octets returns what is there, at most \<open>n\<close>; once \<open>rx\<close> is exhausted a
  read times out and returns the empty bytes object.
\<close>

record serial_port =
  rx :: "byte list"
  tx :: "byte list"
  is_open :: bool

definition port_write :: "byte list \<Rightarrow> serial_port \<Rightarrow> serial_port" where
  "port_write bs p = p\<lparr>tx := tx p @ bs\<rparr>"

definition port_close :: "serial_port \<Rightarrow> serial_port" where
  "port_close p = p\<lparr>is_open := False\<rparr>"

section \<open>Constants\<close>

definition MAX_INFO_LEN :: nat where
  "MAX_INFO_LEN = 256"

definition FRAME_START :: "byte list" where
  "FRAME_START = [0x16, 0x10, 0x02]"

definition FRAME_END :: "byte list" where
  "FRAME_END = [0x10, 0x03]"

definition LR_FRAME :: "byte list" where
  "LR_FRAME =
     [0x17, 0x01, 0x02, 0x01, 0x06, 0x01, 0x00, 0x00,
      0x00, 0x00, 0xff, 0x02, 0x01, 0x02, 0x03, 0x01,
      0x01, 0x04, 0x02, 0x40, 0x00, 0x08, 0x01, 0x03]"

section \<open>The checksum: \<open>fcs_calc\<close>\<close>

text \<open>
  One iteration of the loop of \<open>fcs_calc\<close>, for the loop index \<open>k\<close>. The condition is the
  exclusive or of two Python booleans.
\<close>

definition fcs_bit :: "int \<Rightarrow> int \<Rightarrow> nat \<Rightarrow> int" where
  "fcs_bit fcs_word octet k =
     (if (((fcs_word mod 256) AND 0x01) = 0x01) \<noteq> ((octet AND (push_bit k 1)) \<noteq> 0)
      then (fcs_word div 2) XOR 0xa001
      else fcs_word div 2)"

definition fcs_calc :: "int \<Rightarrow> int \<Rightarrow> int" where
  "fcs_calc fcs_word octet = fold (\<lambda>k w. fcs_bit w octet k) [0..<8] fcs_word"

section \<open>The frame codec: \<open>send_frame\<close> and \<open>recv_frame\<close>\<close>

text \<open>
  The two \<open>for b in ...\<close> loops of \<open>send_frame\<close> have the same body: update the checksum,
  write the octet, write it a second time when it is the escape octet.
\<close>

fun send_octets :: "byte list \<Rightarrow> int \<times> serial_port \<Rightarrow> int \<times> serial_port" where
  "send_octets [] (fcs_word, p) = (fcs_word, p)"
| "send_octets (b # bs) (fcs_word, p) =
     (let fcs_word = fcs_calc fcs_word (uint b);
          p = port_write [b] p;
          p = (if b = 0x10 then port_write [0x10] p else p)
      in send_octets bs (fcs_word, p))"

text \<open>\<open>info\<close> is optional; \<open>if info:\<close> is false for \<open>None\<close> and for empty bytes.\<close>

definition send_frame :: "byte list \<Rightarrow> byte list option \<Rightarrow> serial_port \<Rightarrow> serial_port outcome" where
  "send_frame head info p =
     (let fcs_word = 0;
          p = port_write FRAME_START p;
          (fcs_word, p) = send_octets head (fcs_word, p);
          (fcs_word, p) =
            (case info of
               None \<Rightarrow> (fcs_word, p)
             | Some bs \<Rightarrow> if bs = [] then (fcs_word, p) else send_octets bs (fcs_word, p));
          p = port_write FRAME_END p;
          fcs_word = fcs_calc fcs_word (uint (FRAME_END ! 1))
      in case bytes [fcs_word mod 256, fcs_word div 256] of
           Inl e \<Rightarrow> Raised e p
         | Inr trailer \<Rightarrow> Done (port_write trailer p))"

text \<open>
  The first loop of \<open>recv_frame\<close>, on the octets still to be read: \<open>None\<close> when a read
  times out (the input is exhausted), otherwise the input left after the start marker.
\<close>

fun scan_start :: "nat \<Rightarrow> byte list \<Rightarrow> byte list option" where
  "scan_start state [] = (if state < 3 then None else Some [])"
| "scan_start state (b # inp) =
     (if state < 3 then
        scan_start
          (if state = 0 \<and> b = 0x16 then 1
           else if state = 1 \<and> b = 0x10 then 2
           else if state = 2 \<and> b = 0x02 then 3
           else 0) inp
      else Some (b # inp))"

text \<open>
  The second loop: \<open>None\<close> when a read times out, otherwise the checksum, the frame data
  and the input left after the terminator. In state 1 an octet that is neither the escape
  nor the terminator changes nothing.
\<close>

fun read_body :: "nat \<Rightarrow> int \<Rightarrow> byte list \<Rightarrow> byte list \<Rightarrow> (int \<times> byte list \<times> byte list) option" where
  "read_body state fcs_word frame_data [] =
     (if state < 2 then None else Some (fcs_word, frame_data, []))"
| "read_body state fcs_word frame_data (val # inp) =
     (if state < 2 then
        (if state = 0 then
           (if val = 0x10 then read_body 1 fcs_word frame_data inp
            else read_body 0 (fcs_calc fcs_word (uint val)) (frame_data @ [val]) inp)
         else if state = 1 then
           (if val = 0x10 then
              read_body 0 (fcs_calc fcs_word (uint val)) (frame_data @ [val]) inp
            else if val = 0x03 then
              read_body 2 (fcs_calc fcs_word (uint val)) frame_data inp
            else read_body 1 fcs_word frame_data inp)
         else read_body state fcs_word frame_data inp)
      else Some (fcs_word, frame_data, val # inp))"

text \<open>
  \<open>recv_frame\<close> returns \<open>None\<close> or the frame data, and leaves the port with the input it
  has not read.
\<close>

definition recv_frame :: "serial_port \<Rightarrow> byte list option \<times> serial_port" where
  "recv_frame p =
     (case scan_start 0 (rx p) of
        None \<Rightarrow> (None, p\<lparr>rx := []\<rparr>)
      | Some inp \<Rightarrow>
          (case read_body 0 0 [] inp of
             None \<Rightarrow> (None, p\<lparr>rx := []\<rparr>)
           | Some (fcs_word, frame_data, inp) \<Rightarrow>
               (let fcs_in = take 2 inp;
                    p = p\<lparr>rx := drop 2 inp\<rparr>
                in if length fcs_in < 2 then (None, p)
                   else if fcs_word mod 256 \<noteq> uint (fcs_in ! 0)
                           \<or> fcs_word div 256 \<noteq> uint (fcs_in ! 1) then (None, p)
                   else (Some frame_data, p))))"

section \<open>Acknowledgements: \<open>send_la_frame\<close> and \<open>wait_la_frame\<close>\<close>

definition send_la_frame :: "int \<Rightarrow> serial_port \<Rightarrow> serial_port outcome" where
  "send_la_frame seq p =
     (case bytes [0x03, 0x05, seq, 0x01] of
        Inl e \<Rightarrow> Raised e p
      | Inr head \<Rightarrow> send_frame head None p)"

text \<open>
  \<open>wait_la_frame\<close> is a \<open>while True\<close> loop, and it may run forever: the model counts the
  iterations it is allowed, and \<open>None\<close> means that they did not suffice. \<open>not recv\<close>
  holds for \<open>None\<close> and for an empty frame. The loop returns \<open>True\<close>, which no caller
  reads.
\<close>

fun wait_la_frame :: "nat \<Rightarrow> int \<Rightarrow> serial_port \<Rightarrow> serial_port outcome option" where
  "wait_la_frame 0 seq p = None"
| "wait_la_frame (Suc fuel) seq p =
     (case recv_frame p of
        (None, p) \<Rightarrow> wait_la_frame fuel seq p
      | (Some recv, p) \<Rightarrow>
          if recv = [] then wait_la_frame fuel seq p
          else
            (case getitem recv 1 of
               Inl e \<Rightarrow> Some (Raised e p)
             | Inr tag \<Rightarrow>
                 (case (if tag = 0x04 then
                          (case getitem recv 2 of
                             Inl e \<Rightarrow> Raised e p
                           | Inr s \<Rightarrow> send_la_frame (uint s) p)
                        else Done p) of
                    Raised e p \<Rightarrow> Some (Raised e p)
                  | Done p \<Rightarrow>
                      if tag = 0x05 then
                        (case getitem recv 2 of
                           Inl e \<Rightarrow> Some (Raised e p)
                         | Inr s \<Rightarrow>
                             if uint s = seq then Some (Done p)
                             else wait_la_frame fuel seq p)
                      else wait_la_frame fuel seq p)))"

section \<open>The installer object\<close>

text \<open>
  The fields of the installer that the protocol engine reads or writes. \<open>file_list\<close>
  holds each queued path with the content of its file; \<open>debug_text\<close> the lines logged;
  \<open>progress\<close> every value assigned to the progress bar, in order; \<open>port\<close> is a closed
  port until \<open>run_installer\<close> opens one.
\<close>

record gui =
  port :: serial_port
  lt_seq_no :: int
  file_list :: "(string \<times> byte list) list"
  port_combo :: string
  debug_text :: "string list"
  progress :: "rat list"
  start_btn_enabled :: bool

definition log :: "string \<Rightarrow> gui \<Rightarrow> gui" where
  "log msg g = g\<lparr>debug_text := debug_text g @ [msg]\<rparr>"

text \<open>The outcome of a procedure of the port, as an outcome of the installer.\<close>

fun in_gui :: "gui \<Rightarrow> serial_port outcome \<Rightarrow> gui outcome" where
  "in_gui g (Done p) = Done (g\<lparr>port := p\<rparr>)"
| "in_gui g (Raised e p) = Raised e (g\<lparr>port := p\<rparr>)"

text \<open>
  Sequencing: the next statement runs when the previous one finished, an exception or a
  loop out of iterations ends the sequence.
\<close>

definition then_do :: "'s outcome option \<Rightarrow> ('s \<Rightarrow> 's outcome option) \<Rightarrow> 's outcome option" where
  "then_do m f =
     (case m of
        None \<Rightarrow> None
      | Some (Raised e s) \<Rightarrow> Some (Raised e s)
      | Some (Done s) \<Rightarrow> f s)"

definition send_lt_frame :: "byte list \<Rightarrow> gui \<Rightarrow> gui outcome" where
  "send_lt_frame info g =
     (case bytes [0x02, 0x04, lt_seq_no g] of
        Inl e \<Rightarrow> Raised e g
      | Inr head \<Rightarrow> in_gui g (send_frame head (Some info) (port g)))"

section \<open>The installation engine: \<open>run_installer\<close>\<close>

text \<open>The first loop: wait for a frame whose second octet is \<open>0x01\<close>.\<close>

fun wait_request :: "nat \<Rightarrow> serial_port \<Rightarrow> serial_port outcome option" where
  "wait_request 0 p = None"
| "wait_request (Suc fuel) p =
     (case recv_frame p of
        (None, p) \<Rightarrow> wait_request fuel p
      | (Some recv, p) \<Rightarrow>
          if recv = [] then wait_request fuel p
          else
            (case getitem recv 1 of
               Inl e \<Rightarrow> Some (Raised e p)
             | Inr tag \<Rightarrow> if tag = 0x01 then Some (Done p) else wait_request fuel p))"

text \<open>
  The owner name of the peer's dock frame: every second octet from offset 24, up to the
  first zero.
\<close>

fun owner_name :: "byte list \<Rightarrow> string" where
  "owner_name [] = []"
| "owner_name (b # bs) = (if b = 0 then [] else char_of (unat b) # owner_name (drop 1 bs))"

text \<open>
  The three loops that wait for a dock frame (second octet \<open>0x04\<close>) and acknowledge it.
  They differ in one point: the second of them logs the owner name before it leaves the
  loop, which \<open>announce\<close> selects.
\<close>

fun wait_dock :: "nat \<Rightarrow> bool \<Rightarrow> gui \<Rightarrow> gui outcome option" where
  "wait_dock 0 announce g = None"
| "wait_dock (Suc fuel) announce g =
     (case recv_frame (port g) of
        (None, p) \<Rightarrow> wait_dock fuel announce (g\<lparr>port := p\<rparr>)
      | (Some recv, p) \<Rightarrow>
          if recv = [] then wait_dock fuel announce (g\<lparr>port := p\<rparr>)
          else
            (case getitem recv 1 of
               Inl e \<Rightarrow> Some (Raised e (g\<lparr>port := p\<rparr>))
             | Inr tag \<Rightarrow>
                 if tag = 0x04 then
                   (case getitem recv 2 of
                      Inl e \<Rightarrow> Some (Raised e (g\<lparr>port := p\<rparr>))
                    | Inr s \<Rightarrow>
                        then_do (Some (in_gui g (send_la_frame (uint s) p)))
                          (\<lambda>g. Some (Done
                             (if announce
                              then log (''Newton Owner: '' @ owner_name (drop 24 recv)) g
                              else g))))
                 else wait_dock fuel announce (g\<lparr>port := p\<rparr>)))"

text \<open>\<open>n.to_bytes(4, byteorder='big')\<close> raises \<open>OverflowError\<close> from \<open>2 ^ 32\<close> on.\<close>

definition to_bytes4 :: "int \<Rightarrow> error + byte list" where
  "to_bytes4 n =
     (if n < 2 ^ 32
      then Inr [word_of_int (n div 2 ^ 24), word_of_int (n div 2 ^ 16),
                word_of_int (n div 2 ^ 8), word_of_int n]
      else Inl OverflowError)"

text \<open>\<open>range(start, stop, step)\<close> for a positive step.\<close>

function py_range :: "nat \<Rightarrow> nat \<Rightarrow> nat \<Rightarrow> nat list" where
  "py_range i stop step =
     (if 0 < step \<and> i < stop then i # py_range (i + step) stop step else [])"
  by pat_completeness auto
termination
  by (relation "measure (\<lambda>(i, stop, step). stop - i)") auto

declare py_range.simps [simp del]

text \<open>The slice \<open>data[i:j]\<close> for \<open>0 \<le> i \<le> j\<close>.\<close>

definition slice :: "'a list \<Rightarrow> nat \<Rightarrow> nat \<Rightarrow> 'a list" where
  "slice data i j = take (j - i) (drop i data)"

text \<open>\<open>while len(chunk) % 4 != 0: chunk += b'\x00'\<close>\<close>

function pad4 :: "byte list \<Rightarrow> byte list" where
  "pad4 chunk = (if length chunk mod 4 \<noteq> 0 then pad4 (chunk @ [0x00]) else chunk)"
  by pat_completeness auto
termination
proof (relation "measure (\<lambda>chunk. (4 - length chunk mod 4) mod 4)")
  show "wf (measure (\<lambda>chunk :: byte list. (4 - length chunk mod 4) mod 4))"
    by simp
next
  fix chunk :: "byte list"
  assume a: "length chunk mod 4 \<noteq> 0"
  define n where "n = length chunk"
  have r: "n mod 4 < 4" by simp
  have s: "Suc n mod 4 = Suc (n mod 4) mod 4" by (simp add: mod_Suc_eq)
  from a r have "n mod 4 = 1 \<or> n mod 4 = 2 \<or> n mod 4 = 3"
    unfolding n_def by linarith
  then have "(4 - Suc n mod 4) mod 4 < (4 - n mod 4) mod 4"
    unfolding s by (elim disjE) simp_all
  then show "(chunk @ [0x00], chunk) \<in> measure (\<lambda>chunk. (4 - length chunk mod 4) mod 4)"
    unfolding n_def by simp
qed

declare pad4.simps [simp del]

text \<open>
  The loop over the chunks of one package, on the offsets it still has to visit.
\<close>

fun send_chunks :: "nat \<Rightarrow> byte list \<Rightarrow> nat list \<Rightarrow> gui \<Rightarrow> gui outcome option" where
  "send_chunks fuel data [] g = Some (Done g)"
| "send_chunks fuel data (i # rest) g =
     (let chunk = pad4 (slice data i (i + MAX_INFO_LEN)) in
      then_do (Some (send_lt_frame chunk g)) (\<lambda>g.
      then_do (map_option (in_gui g) (wait_la_frame fuel (lt_seq_no g) (port g))) (\<lambda>g.
      let g = g\<lparr>lt_seq_no := (lt_seq_no g + 1) mod 256\<rparr>;
          g = g\<lparr>progress := progress g @ [(of_nat i / of_nat (length data)) * 100]\<rparr>
      in send_chunks fuel data rest g)))"

text \<open>The body of the loop over \<open>file_list\<close>.\<close>

definition send_package :: "nat \<Rightarrow> string \<times> byte list \<Rightarrow> gui \<Rightarrow> gui outcome option" where
  "send_package fuel file g =
     (let path = fst file;
          data = snd file;
          f_len = length data;
          g = log (''Uploading '' @ path @ ''...'') g
      in case to_bytes4 (int f_len) of
           Inl e \<Rightarrow> Some (Raised e g)
         | Inr len_bytes \<Rightarrow>
             (let lpkg = ascii ''newtdocklpkg'' @ len_bytes in
              then_do (Some (send_lt_frame lpkg g)) (\<lambda>g.
              then_do (map_option (in_gui g) (wait_la_frame fuel (lt_seq_no g) (port g))) (\<lambda>g.
              let g = g\<lparr>lt_seq_no := lt_seq_no g + 1\<rparr> in
              then_do (send_chunks fuel data (py_range 0 f_len MAX_INFO_LEN) g) (\<lambda>g.
              Some (Done (log (''Finished '' @ path) g)))))))"

fun send_packages :: "nat \<Rightarrow> (string \<times> byte list) list \<Rightarrow> gui \<Rightarrow> gui outcome option" where
  "send_packages fuel [] g = Some (Done g)"
| "send_packages fuel (file # files) g =
     then_do (send_package fuel file g) (\<lambda>g. send_packages fuel files g)"

text \<open>
  A sequenced payload frame followed by the wait for its acknowledgement and the
  increment of the handshake, which has no \<open>% 256\<close>.
\<close>

definition send_and_wait :: "nat \<Rightarrow> byte list \<Rightarrow> gui \<Rightarrow> gui outcome option" where
  "send_and_wait fuel info g =
     then_do (Some (send_lt_frame info g)) (\<lambda>g.
     then_do (map_option (in_gui g) (wait_la_frame fuel (lt_seq_no g) (port g))) (\<lambda>g.
     Some (Done (g\<lparr>lt_seq_no := lt_seq_no g + 1\<rparr>))))"

text \<open>The \<open>try\<close> block, from the point where the port is open.\<close>

definition session :: "nat \<Rightarrow> gui \<Rightarrow> gui outcome option" where
  "session fuel g =
     then_do (map_option (in_gui g) (wait_request fuel (port g))) (\<lambda>g.
     let g = log ''Connected! Sending LR Frame...'' g in
     then_do (Some (in_gui g (send_frame LR_FRAME None (port g)))) (\<lambda>g.
     then_do (map_option (in_gui g) (wait_la_frame fuel (lt_seq_no g) (port g))) (\<lambda>g.
     let g = g\<lparr>lt_seq_no := lt_seq_no g + 1\<rparr> in
     then_do (wait_dock fuel False g) (\<lambda>g.
     let g = log ''Sending dockdock handshake...'' g in
     then_do (send_and_wait fuel
                (ascii ''newtdockdock'' @ [0x00, 0x00, 0x00, 0x04, 0x00, 0x00, 0x00, 0x04]) g) (\<lambda>g.
     then_do (wait_dock fuel True g) (\<lambda>g.
     then_do (send_and_wait fuel
                (ascii ''newtdockstim'' @ [0x00, 0x00, 0x00, 0x04, 0x00, 0x00, 0x00, 0x1e]) g) (\<lambda>g.
     then_do (wait_dock fuel False g) (\<lambda>g.
     then_do (send_packages fuel (file_list g) g) (\<lambda>g.
     then_do (Some (send_lt_frame (ascii ''newtdockdisc'' @ [0x00, 0x00, 0x00, 0x00]) g)) (\<lambda>g.
     let g = log ''Session Finished.'' g in
     Some (Done (g\<lparr>port := port_close (port g)\<rparr>))))))))))))"

text \<open>\<open>str(e)\<close> for the exceptions of the model.\<close>

fun error_str :: "error \<Rightarrow> string" where
  "error_str ValueError = ''bytes must be in range(0, 256)''"
| "error_str IndexError = ''bytearray index out of range''"
| "error_str OverflowError = ''int too big to convert''"
| "error_str InvalidPort = ''Please select a valid serial port.''"

text \<open>
  \<open>run_installer\<close>: \<open>peer\<close> is what the device at the other end of the port sends during
  the session. The \<open>except\<close> clause logs the exception, the \<open>finally\<close> clause enables the
  start button again.
\<close>

definition run_installer :: "nat \<Rightarrow> byte list \<Rightarrow> gui \<Rightarrow> gui option" where
  "run_installer fuel peer g =
     (case (if port_combo g = [] \<or> port_combo g = ''No ports found''
            then Some (Raised InvalidPort g)
            else session fuel
                   (log (''Port '' @ port_combo g @ '' opened. Waiting for Newton...'')
                      (g\<lparr>port := \<lparr>rx = peer, tx = [], is_open = True\<rparr>\<rparr>))) of
        None \<Rightarrow> None
      | Some (Done g) \<Rightarrow> Some (g\<lparr>start_btn_enabled := True\<rparr>)
      | Some (Raised e g) \<Rightarrow>
          Some ((log (''ERROR: '' @ error_str e) g)\<lparr>start_btn_enabled := True\<rparr>))"

text \<open>
  The installer as \<open>__init__\<close>, \<open>refresh_ports\<close> and \<open>add_files\<close> leave it: no port
  yet (a closed one in the model), sequence number 0, the first enumerated port selected
  (or the text \<open>No ports found\<close>), the chosen files queued.
\<close>

definition new_installer :: "string \<Rightarrow> (string \<times> byte list) list \<Rightarrow> gui" where
  "new_installer selected files =
     \<lparr>port = \<lparr>rx = [], tx = [], is_open = False\<rparr>,
      lt_seq_no = 0,
      file_list = files,
      port_combo = selected,
      debug_text = [],
      progress = [],
      start_btn_enabled = False\<rparr>"


section \<open>The wire format and the checksum as the specification words them\<close>

text \<open>
  The specification's checksum engine works on a 16-bit running value: for each of the
  eight bits of the octet, least significant first, the low bit of the running value is
  XORed with that bit; if the result is 1 the running value is shifted right by one bit
  and XORed with \<open>0xA001\<close>, otherwise it is only shifted.
\<close>

definition crc_step_spec :: "16 word \<Rightarrow> bool \<Rightarrow> 16 word" where
  "crc_step_spec v b = (if bit v 0 \<noteq> b then drop_bit 1 v XOR 0xA001 else drop_bit 1 v)"

definition crc_update_spec :: "16 word \<Rightarrow> byte \<Rightarrow> 16 word" where
  "crc_update_spec v octet = fold (\<lambda>k v. crc_step_spec v (bit octet k)) [0..<8] v"

text \<open>
  The frame checksum of the specification: the update folded, from 0, over the header,
  the payload and the terminator octet \<open>0x03\<close>.
\<close>

definition frame_checksum_spec :: "byte list \<Rightarrow> byte list \<Rightarrow> 16 word" where
  "frame_checksum_spec header payload =
     fold (\<lambda>b v. crc_update_spec v b) (header @ payload @ [0x03]) 0"

text \<open>Byte stuffing: a logical escape octet is transmitted twice.\<close>

definition stuff :: "byte list \<Rightarrow> byte list" where
  "stuff bs = concat (map (\<lambda>b. if b = 0x10 then [b, b] else [b]) bs)"

text \<open>
  The frame on the wire: start marker, stuffed header, stuffed payload, end marker,
  checksum with the low byte first.
\<close>

definition wire_spec :: "byte list \<Rightarrow> byte list \<Rightarrow> byte list" where
  "wire_spec header payload =
     [0x16, 0x10, 0x02] @ stuff header @ stuff payload @ [0x10, 0x03] @
     [ucast (frame_checksum_spec header payload),
      ucast (drop_bit 8 (frame_checksum_spec header payload))]"

text \<open>The payload octets of an optional \<open>info\<close> argument.\<close>

definition payload_of :: "byte list option \<Rightarrow> byte list" where
  "payload_of info = (case info of None \<Rightarrow> [] | Some bs \<Rightarrow> bs)"

text \<open>The checksum of the source, folded over a list of octets.\<close>

definition fcs_fold :: "byte list \<Rightarrow> int \<Rightarrow> int" where
  "fcs_fold bs w = fold (\<lambda>b w. fcs_calc w (uint b)) bs w"

text \<open>
  The update of the specification, with the bits of the octet consumed by shifting:
  \<open>n\<close> rounds on the running value \<open>v\<close> and the remaining input bits \<open>x\<close>.
\<close>

fun crc_rounds :: "nat \<Rightarrow> 16 word \<Rightarrow> 16 word \<Rightarrow> 16 word" where
  "crc_rounds 0 v x = v"
| "crc_rounds (Suc n) v x = crc_rounds n (crc_step_spec v (bit x 0)) (drop_bit 1 x)"

section \<open>Observing the wait for an acknowledgement\<close>

text \<open>
  What \<open>recv_frame\<close> returns for a given input, and the input it leaves: it reads
  nothing else of the port.
\<close>

definition recv_bytes :: "byte list \<Rightarrow> byte list option \<times> byte list" where
  "recv_bytes inp =
     (case recv_frame \<lparr>rx = inp, tx = [], is_open = True\<rparr> of (r, p) \<Rightarrow> (r, rx p))"

text \<open>
  The results of \<open>n\<close> successive calls of \<open>recv_frame\<close>, and the input left after
  them.
\<close>

fun recv_frames :: "nat \<Rightarrow> byte list \<Rightarrow> byte list option list" where
  "recv_frames 0 inp = []"
| "recv_frames (Suc n) inp = fst (recv_bytes inp) # recv_frames n (snd (recv_bytes inp))"

fun rx_after :: "nat \<Rightarrow> byte list \<Rightarrow> byte list" where
  "rx_after 0 inp = inp"
| "rx_after (Suc n) inp = rx_after n (snd (recv_bytes inp))"

text \<open>
  The acknowledgement owed to a received frame: the frame \<open>03 05 seq 01\<close> for a dock
  frame (second octet \<open>0x04\<close>) with sequence number \<open>seq\<close>, nothing for any other
  result.
\<close>

definition la_reply :: "byte list option \<Rightarrow> byte list" where
  "la_reply r =
     (case r of
        None \<Rightarrow> []
      | Some f \<Rightarrow>
          if 3 \<le> length f \<and> f ! 1 = 0x04 then wire_spec [0x03, 0x05, f ! 2, 0x01] [] else [])"

text \<open>
  A received frame acknowledges \<open>seq\<close>: its second octet is \<open>0x05\<close> and its third
  octet is \<open>seq\<close>.
\<close>

definition acks :: "int \<Rightarrow> byte list option \<Rightarrow> bool" where
  "acks seq r =
     (case r of
        None \<Rightarrow> False
      | Some f \<Rightarrow> 3 \<le> length f \<and> f ! 1 = 0x05 \<and> uint (f ! 2) = seq)"

section \<open>A peer that acknowledges a package transfer\<close>




section \<open>The checksum\<close>

lemma low_bit_mod: "((w::int) mod 256 AND 1 = 1) = odd w"
  unfolding and_one_eq by presburger

lemma fcs_bit_uint:
  "fcs_bit (uint (v::16 word)) (uint (octet::byte)) k =
     uint (crc_step_spec v (k < 8 \<and> bit octet k))"
proof -
  have c1: "(uint v mod 256 AND 1 = 1) = bit v 0"
  proof -
    have "odd (uint v) = bit (uint v) 0" by (simp only: bit_0)
    also have "\<dots> = bit v 0" by (simp add: bit_uint_iff)
    finally show ?thesis by (simp only: low_bit_mod)
  qed
  have c2: "(uint octet AND push_bit k 1 \<noteq> 0) = (k < 8 \<and> bit octet k)"
    unfolding bit_iff_and_push_bit_not_eq_0 [symmetric] by (simp add: bit_uint_iff)
  have d: "uint v div 2 = uint (drop_bit 1 v)"
    by (simp add: drop_bit_eq_div uint_div_distrib)
  have x: "uint (drop_bit 1 v) XOR 0xa001 = uint (drop_bit 1 v XOR 0xA001)"
    by (simp add: uint_xor)
  show ?thesis
    unfolding fcs_bit_def crc_step_spec_def c1 c2 d x by auto
qed

lemma upt8: "[0..<8] = [0, 1, 2, 3, 4, 5, 6, 7::nat]"
  by (simp add: upt_rec)

lemma fcs_calc_uint:
  "fcs_calc (uint (v::16 word)) (uint (octet::byte)) = uint (crc_update_spec v octet)"
  unfolding fcs_calc_def crc_update_spec_def upt8
  by (simp add: fcs_bit_uint)

lemma fcs_bit_range:
  assumes "0 \<le> w" "w < 2 ^ 16"
  shows "0 \<le> fcs_bit w octet k \<and> fcs_bit w octet k < 2 ^ 16"
proof -
  have d: "0 \<le> w div 2" "w div 2 < 2 ^ 16" using assms by auto
  have "w div 2 XOR 0xa001 < 2 ^ 16"
    by (rule XOR_upper) (use d in auto)
  moreover have "0 \<le> w div 2 XOR 0xa001"
    by (rule XOR_lower) (use d in auto)
  ultimately show ?thesis using d by (simp add: fcs_bit_def)
qed

lemma fcs_calc_range:
  assumes "0 \<le> w" "w < 2 ^ 16"
  shows "0 \<le> fcs_calc w octet \<and> fcs_calc w octet < 2 ^ 16"
proof -
  have "0 \<le> fold (\<lambda>k w. fcs_bit w octet k) ks w
      \<and> fold (\<lambda>k w. fcs_bit w octet k) ks w < 2 ^ 16" for ks
    using assms
  proof (induction ks arbitrary: w)
    case Nil
    then show ?case by simp
  next
    case (Cons k ks)
    have "0 \<le> fcs_bit w octet k \<and> fcs_bit w octet k < 2 ^ 16"
      using fcs_bit_range [of w octet k] Cons.prems by simp
    then show ?case using Cons.IH [of "fcs_bit w octet k"] by simp
  qed
  then show ?thesis by (simp add: fcs_calc_def)
qed

lemma fcs_fold_simps [simp]:
  "fcs_fold [] w = w"
  "fcs_fold (b # bs) w = fcs_fold bs (fcs_calc w (uint b))"
  "fcs_fold (xs @ ys) w = fcs_fold ys (fcs_fold xs w)"
  by (simp_all add: fcs_fold_def)

lemma fcs_fold_uint:
  "fcs_fold bs (uint (v::16 word)) = uint (fold (\<lambda>b v. crc_update_spec v b) bs v)"
  by (induction bs arbitrary: v) (simp_all add: fcs_calc_uint)

lemma fcs_fold_0: "fcs_fold bs 0 = uint (fold (\<lambda>b v. crc_update_spec v b) bs 0)"
  using fcs_fold_uint [of bs 0] by simp

lemma word_lo: "(word_of_int (uint (c::16 word) mod 256) :: byte) = ucast c"
proof -
  have e: "uint c mod 256 = take_bit 8 (uint c)" by (simp add: take_bit_eq_mod)
  show ?thesis unfolding e by (rule bit_word_eqI) (simp add: bit_simps)
qed

lemma word_hi: "(word_of_int (uint (c::16 word) div 256) :: byte) = ucast (drop_bit 8 c)"
proof -
  have e: "uint c div 256 = drop_bit 8 (uint c)" by (simp add: drop_bit_eq_div)
  show ?thesis unfolding e by (rule bit_word_eqI) (simp add: bit_simps)
qed

lemma uint_lo: "uint (ucast (c::16 word) :: byte) = uint c mod 256"
  by (simp add: unsigned_ucast_eq take_bit_eq_mod)

lemma uint_hi: "uint (ucast (drop_bit 8 (c::16 word)) :: byte) = uint c div 256"
proof -
  have "uint c < 2 ^ 16" using uint_lt2p [of c] by simp
  then have "uint c div 256 < 256" by simp
  moreover have "0 \<le> uint c div 256" by (simp add: pos_imp_zdiv_nonneg_iff)
  ultimately have "uint c div 256 mod 256 = uint c div 256" by simp
  then show ?thesis
    by (simp add: unsigned_ucast_eq take_bit_eq_mod drop_bit_eq_div uint_div_distrib)
qed

lemma trailer_bytes:
  "bytes [uint (c::16 word) mod 256, uint c div 256] = Inr [ucast c, ucast (drop_bit 8 c)]"
proof -
  have "uint c < 2 ^ 16" using uint_lt2p [of c] by simp
  then have r: "uint c div 256 < 256" by simp
  have n: "0 \<le> uint c div 256" by (simp add: pos_imp_zdiv_nonneg_iff)
  show ?thesis using r n by (simp add: bytes_def word_lo word_hi)
qed

section \<open>Encoding a frame\<close>

lemma stuff_simps [simp]:
  "stuff [] = []"
  "stuff (b # bs) = (if b = 0x10 then [0x10, 0x10] else [b]) @ stuff bs"
  "stuff (xs @ ys) = stuff xs @ stuff ys"
  by (simp_all add: stuff_def)

lemma send_octets_eq:
  "send_octets bs (w, p) = (fcs_fold bs w, p\<lparr>tx := tx p @ stuff bs\<rparr>)"
  by (induction bs arbitrary: w p) (simp_all add: port_write_def Let_def)

lemma send_frame_eq:
  "send_frame head info p = Done (p\<lparr>tx := tx p @ wire_spec head (payload_of info)\<rparr>)"
proof -
  define c where "c = frame_checksum_spec head (payload_of info)"
  have f: "fcs_calc (fcs_fold (payload_of info) (fcs_fold head 0)) 3 = uint c"
    using fcs_fold_0 [of "head @ payload_of info @ [0x03]"]
    by (simp add: c_def frame_checksum_spec_def)
  have t: "bytes [uint c mod 256, uint c div 256] = Inr [ucast c, ucast (drop_bit 8 c)]"
    by (rule trailer_bytes)
  show ?thesis
  proof (cases info)
    case None
    then show ?thesis
      using f t
      by (simp add: send_frame_def Let_def send_octets_eq payload_of_def FRAME_END_def
          FRAME_START_def port_write_def wire_spec_def c_def)
  next
    case (Some bs)
    then show ?thesis
      using f t
      by (cases "bs = []")
        (simp_all add: send_frame_def Let_def send_octets_eq payload_of_def FRAME_END_def
          FRAME_START_def port_write_def wire_spec_def c_def)
  qed
qed

section \<open>Decoding a frame\<close>

lemma scan_start_3 [simp]: "scan_start 3 xs = Some xs"
  by (cases xs) simp_all

lemma read_body_2 [simp]: "read_body 2 w fd xs = Some (w, fd, xs)"
  by (cases xs) simp_all

lemma read_body_stuff:
  "read_body 0 w fd (stuff bs @ rest) = read_body 0 (fcs_fold bs w) (fd @ bs) rest"
  by (induction bs arbitrary: w fd) simp_all

lemma frame_checksum_fold:
  "fcs_calc (fcs_fold pl (fcs_fold h 0)) 3 = uint (frame_checksum_spec h pl)"
  using fcs_fold_0 [of "h @ pl @ [0x03]"] by (simp add: frame_checksum_spec_def)

lemma read_body_wire:
  "read_body 0 0 [] (stuff h @ stuff pl @ 0x10 # 0x03 # xs)
      = Some (uint (frame_checksum_spec h pl), h @ pl, xs)"
  using read_body_stuff [of 0 "[]" "h @ pl" "0x10 # 0x03 # xs"]
  by (simp add: frame_checksum_fold)

lemma uint_hi_mod:
  "uint (drop_bit 8 (c::16 word)) mod 256 = uint c div 256"
  using uint_hi [of c] by (simp add: unsigned_ucast_eq take_bit_eq_mod)

lemma recv_frame_wire:
  "recv_frame (q\<lparr>rx := wire_spec h pl @ rest\<rparr>) = (Some (h @ pl), q\<lparr>rx := rest\<rparr>)"
  by (simp add: recv_frame_def wire_spec_def read_body_wire uint_lo uint_hi_mod Let_def)

section \<open>The round trip of the frame codec\<close>

text \<open>
  Claim C1. For every header and every optional payload, also ones that contain the
  escape octet \<open>0x10\<close>, \<open>send_frame\<close> finishes, and \<open>recv_frame\<close> on the octets it has
  written (followed by any further input \<open>rest\<close>) accepts the frame and returns exactly
  the header followed by the payload, leaving \<open>rest\<close> unread.
\<close>

theorem frame_roundtrip:
  "\<exists>wire. send_frame head info p = Done (p\<lparr>tx := tx p @ wire\<rparr>)
      \<and> recv_frame (q\<lparr>rx := wire @ rest\<rparr>)
          = (Some (head @ payload_of info), q\<lparr>rx := rest\<rparr>)"
  using send_frame_eq [of head info p]
    recv_frame_wire [where q = q and h = head and pl = "payload_of info" and rest = rest]
  by blast

theorem frame_roundtrip_witness:
  "send_frame [0x02, 0x10, 0x03] (Some [0x10, 0x10, 0x41]) \<lparr>rx = [], tx = [], is_open = True\<rparr>
     = Done \<lparr>rx = [],
             tx = [0x16, 0x10, 0x02, 0x02, 0x10, 0x10, 0x03, 0x10, 0x10, 0x10, 0x10, 0x41,
                   0x10, 0x03, 0x10, 0x04],
             is_open = True\<rparr>
   \<and> recv_frame
       \<lparr>rx = [0x16, 0x10, 0x02, 0x02, 0x10, 0x10, 0x03, 0x10, 0x10, 0x10, 0x10, 0x41,
              0x10, 0x03, 0x10, 0x04],
        tx = [], is_open = True\<rparr>
     = (Some [0x02, 0x10, 0x03, 0x10, 0x10, 0x41], \<lparr>rx = [], tx = [], is_open = True\<rparr>)"
proof -
  let ?P = "\<lparr>rx = [], tx = [], is_open = True\<rparr>"
  let ?h = "[0x02, 0x10, 0x03] :: byte list"
  let ?i = "Some [0x10, 0x10, 0x41 :: byte]"
  obtain wire where
    s: "send_frame ?h ?i ?P = Done (?P\<lparr>tx := tx ?P @ wire\<rparr>)" and
    r: "recv_frame (?P\<lparr>rx := wire @ []\<rparr>) = (Some (?h @ payload_of ?i), ?P\<lparr>rx := []\<rparr>)"
    using frame_roundtrip [where head = ?h and info = ?i and p = ?P and q = ?P and rest = "[]"]
    by blast
  have e: "send_frame ?h ?i ?P
     = Done \<lparr>rx = [],
             tx = [0x16, 0x10, 0x02, 0x02, 0x10, 0x10, 0x03, 0x10, 0x10, 0x10, 0x10, 0x41,
                   0x10, 0x03, 0x10, 0x04],
             is_open = True\<rparr>"
    by code_simp
  from s e have
    "wire = [0x16, 0x10, 0x02, 0x02, 0x10, 0x10, 0x03, 0x10, 0x10, 0x10, 0x10, 0x41,
             0x10, 0x03, 0x10, 0x04]"
    by simp
  with r e show ?thesis by (simp add: payload_of_def)
qed

section \<open>The checksum and the frame on the wire\<close>

text \<open>
  Claim C2. \<open>fcs_calc\<close> computes, on every 16-bit running value and every octet, the
  bit-serial update the specification words (\<open>crc_update_spec\<close>); and \<open>send_frame\<close>
  writes the start marker, the stuffed header and payload, the end marker and the frame
  checksum, low byte first, where the checksum is that update folded from 0 over the
  header octets, the payload octets and the terminator \<open>0x03\<close>: the logical octets, so
  that an escape octet doubled on the wire is accumulated once.
\<close>

theorem fcs_calc_refines_spec:
  "fcs_calc (uint (v::16 word)) (uint (octet::byte)) = uint (crc_update_spec v octet)
   \<and> send_frame head info p = Done (p\<lparr>tx := tx p @ wire_spec head (payload_of info)\<rparr>)"
  by (simp add: fcs_calc_uint send_frame_eq)

theorem fcs_calc_refines_spec_witness:
  "fcs_calc 0xFFFF 0x10 = 0x8CBE
   \<and> uint (crc_update_spec 0xFFFF 0x10) = 0x8CBE
   \<and> send_frame [0x10] None \<lparr>rx = [], tx = [], is_open = True\<rparr>
       = Done \<lparr>rx = [], tx = wire_spec [0x10] [], is_open = True\<rparr>"
proof -
  have a: "fcs_calc 0xFFFF 0x10 = 0x8CBE" by code_simp
  have b: "fcs_calc (uint (0xFFFF::16 word)) (uint (0x10::byte))
             = uint (crc_update_spec 0xFFFF 0x10)"
    and c: "send_frame [0x10] None \<lparr>rx = [], tx = [], is_open = True\<rparr>
             = Done (\<lparr>rx = [], tx = [], is_open = True\<rparr>
                 \<lparr>tx := tx \<lparr>rx = [], tx = [], is_open = True\<rparr>
                    @ wire_spec [0x10] (payload_of None)\<rparr>)"
    using fcs_calc_refines_spec
      [where v = "0xFFFF" and octet = "0x10" and head = "[0x10]" and info = None
         and p = "\<lparr>rx = [], tx = [], is_open = True\<rparr>"]
    by blast+
  have d: "uint (crc_update_spec 0xFFFF 0x10) = 0x8CBE" using a b by simp
  show ?thesis using a c d by (simp add: payload_of_def)
qed

section \<open>The 16-bit range of the checksum\<close>

text \<open>
  Claim C10. For a running value below \<open>2 ^ 16\<close> and an octet below \<open>2 ^ 8\<close>,
  \<open>fcs_calc\<close> returns a value below \<open>2 ^ 16\<close> again, so that \<open>fcs_word % 256\<close> and
  \<open>fcs_word // 256\<close> are both in \<open>range(256)\<close> and \<open>bytes([...])\<close> of the trailer does
  not raise.
\<close>

theorem fcs_calc_16bit:
  assumes "0 \<le> w" "w < 2 ^ 16" "0 \<le> octet" "octet < 2 ^ 8"
  shows "0 \<le> fcs_calc w octet \<and> fcs_calc w octet < 2 ^ 16
       \<and> 0 \<le> fcs_calc w octet mod 256 \<and> fcs_calc w octet mod 256 < 256
       \<and> 0 \<le> fcs_calc w octet div 256 \<and> fcs_calc w octet div 256 < 256
       \<and> (\<exists>trailer. bytes [fcs_calc w octet mod 256, fcs_calc w octet div 256] = Inr trailer)"
proof -
  have r: "0 \<le> fcs_calc w octet" "fcs_calc w octet < 2 ^ 16"
    using fcs_calc_range [OF assms(1,2)] by simp_all
  have d: "0 \<le> fcs_calc w octet div 256" using r by (simp add: pos_imp_zdiv_nonneg_iff)
  have e: "fcs_calc w octet div 256 < 256" using r by simp
  show ?thesis using r d e by (simp add: bytes_def)
qed

theorem fcs_calc_16bit_witness:
  "(0::int) \<le> 0xFFFF \<and> (0xFFFF::int) < 2 ^ 16 \<and> (0::int) \<le> 0xFF \<and> (0xFF::int) < 2 ^ 8
   \<and> 0 \<le> fcs_calc 0xFFFF 0xFF \<and> fcs_calc 0xFFFF 0xFF < 2 ^ 16
   \<and> 0 \<le> fcs_calc 0xFFFF 0xFF mod 256 \<and> fcs_calc 0xFFFF 0xFF mod 256 < 256
   \<and> 0 \<le> fcs_calc 0xFFFF 0xFF div 256 \<and> fcs_calc 0xFFFF 0xFF div 256 < 256
   \<and> (\<exists>trailer. bytes [fcs_calc 0xFFFF 0xFF mod 256, fcs_calc 0xFFFF 0xFF div 256]
         = Inr trailer)"
  using fcs_calc_16bit [of "0xFFFF" "0xFF"] by simp

section \<open>Chunking a package\<close>

lemma pad4_eq: "pad4 c = c @ replicate ((4 - length c mod 4) mod 4) 0"
proof (induction c rule: pad4.induct)
  case (1 chunk)
  show ?case
  proof (cases "length chunk mod 4 = 0")
    case True
    then show ?thesis by (subst pad4.simps) simp
  next
    case False
    have r: "length chunk mod 4 < 4" by simp
    have s: "Suc (length chunk) mod 4 = Suc (length chunk mod 4) mod 4"
      by (simp add: mod_Suc_eq)
    from False r have c: "length chunk mod 4 = 1 \<or> length chunk mod 4 = 2 \<or> length chunk mod 4 = 3"
      by linarith
    have k: "Suc ((4 - Suc (length chunk) mod 4) mod 4) = (4 - length chunk mod 4) mod 4"
      unfolding s using c by (elim disjE) simp_all
    have "pad4 chunk = pad4 (chunk @ [0])" using False by (subst pad4.simps) simp
    also have "\<dots> = (chunk @ [0]) @ replicate ((4 - length (chunk @ [0]) mod 4) mod 4) 0"
      using 1 False by simp
    also have "\<dots> = chunk @ replicate (Suc ((4 - Suc (length chunk) mod 4) mod 4)) 0"
      by (simp add: replicate_app_Cons_same)
    finally show ?thesis unfolding k .
  qed
qed










lemma pad4_single: "pad4 [x] = [x, 0, 0, 0]"
proof -
  have "replicate 3 (0::byte) = [0, 0, 0]" by (simp add: numeral_3_eq_3)
  then show ?thesis by (simp add: pad4_eq)
qed


section \<open>Running the installer against a scripted peer\<close>

text \<open>
  The peer's frames are written with \<open>wire_spec\<close>, the format \<open>send_frame\<close> produces;
  \<open>recv_frame\<close> decodes such a frame at the head of the input.
\<close>

lemma recv_frame_lit:
  "recv_frame \<lparr>rx = wire_spec h pl @ rest, tx = t, is_open = b\<rparr>
     = (Some (h @ pl), \<lparr>rx = rest, tx = t, is_open = b\<rparr>)"
  using recv_frame_wire [where q = "\<lparr>rx = [], tx = t, is_open = b\<rparr>" and h = h and pl = pl
      and rest = rest]
  by simp

lemma recv_frame_lit1:
  "recv_frame \<lparr>rx = wire_spec h pl, tx = t, is_open = b\<rparr>
     = (Some (h @ pl), \<lparr>rx = [], tx = t, is_open = b\<rparr>)"
  using recv_frame_lit [of h pl "[]" t b] by simp

lemma then_do_simps [simp]:
  "then_do None f = None"
  "then_do (Some (Raised e s)) f = Some (Raised e s)"
  "then_do (Some (Done s)) f = f s"
  by (simp_all add: then_do_def)

lemma then_do_weak_cong [cong]: "m = m' \<Longrightarrow> then_do m f = then_do m' f"
  by simp

lemma py_range_one: "py_range 0 (Suc 0) 256 = [0]"
proof -
  have "py_range 256 (Suc 0) 256 = []" by (subst py_range.simps) simp
  then show ?thesis by (subst py_range.simps) simp
qed

section \<open>The chunks a package transfer sends\<close>








section \<open>Resynchronisation on the start marker\<close>

text \<open>
  Claim C7 (the code departs from it). The scan for the start marker returns to state 0
  on every octet that does not continue the marker, also when that octet is \<open>0x16\<close>, the
  first octet of the marker. On the stream \<open>0x16 0x16 0x10 0x02 ...\<close> the scan is
  therefore back in state 0 after the marker, which is not found: a frame that
  \<open>recv_frame\<close> accepts is lost when a single \<open>0x16\<close> precedes it.
\<close>

theorem scan_start_misses_marker:
  "scan_start 0 (0x16 # 0x16 # 0x10 # 0x02 # rest) = scan_start 0 rest
   \<and> recv_frame \<lparr>rx = wire_spec [0x03, 0x05, 0x00, 0x01] [], tx = [], is_open = True\<rparr>
       = (Some [0x03, 0x05, 0x00, 0x01], \<lparr>rx = [], tx = [], is_open = True\<rparr>)
   \<and> recv_frame \<lparr>rx = 0x16 # wire_spec [0x03, 0x05, 0x00, 0x01] [], tx = [], is_open = True\<rparr>
       = (None, \<lparr>rx = [], tx = [], is_open = True\<rparr>)"
proof (intro conjI)
  show "scan_start 0 (0x16 # 0x16 # 0x10 # 0x02 # rest) = scan_start 0 rest" by simp
  show "recv_frame \<lparr>rx = wire_spec [0x03, 0x05, 0x00, 0x01] [], tx = [], is_open = True\<rparr>
       = (Some [0x03, 0x05, 0x00, 0x01], \<lparr>rx = [], tx = [], is_open = True\<rparr>)"
    using recv_frame_lit1 [of "[0x03, 0x05, 0x00, 0x01]" "[]"] by simp
  show "recv_frame \<lparr>rx = 0x16 # wire_spec [0x03, 0x05, 0x00, 0x01] [], tx = [], is_open = True\<rparr>
       = (None, \<lparr>rx = [], tx = [], is_open = True\<rparr>)"
    by (simp add: recv_frame_def wire_spec_def)
qed

theorem scan_start_misses_marker_witness:
  "scan_start 0 [0x16, 0x16, 0x10, 0x02] = None
   \<and> fst (recv_frame
          \<lparr>rx = 0x16 # wire_spec [0x03, 0x05, 0x00, 0x01] [], tx = [], is_open = True\<rparr>)
       = None"
  using scan_start_misses_marker [of "[]"] by simp

section \<open>Exceptions and the port\<close>

text \<open>
  Claim C5 (the code departs from it). The exception is caught and logged, but
  \<open>port.close()\<close> is the last statement of the \<open>try\<close> block and the \<open>finally\<close> clause
  only enables the start button: when the peer's first frame has a single octet,
  \<open>recv[1]\<close> raises \<open>IndexError\<close> and the installer ends with the port still open.
\<close>

theorem run_installer_leaves_port_open:
  "run_installer (Suc n) (wire_spec [0x01] []) (new_installer ''COM1'' files)
     = Some ((new_installer ''COM1'' files)
         \<lparr>port := \<lparr>rx = [], tx = [], is_open = True\<rparr>,
          debug_text := [''Port COM1 opened. Waiting for Newton...'',
                         ''ERROR: bytearray index out of range''],
          start_btn_enabled := True\<rparr>)"
  by (simp add: run_installer_def new_installer_def session_def log_def
      recv_frame_lit1 getitem_def)

section \<open>The sequence number\<close>

text \<open>
  Claim C4 (the code departs from it). Only the increment in the chunk loop is taken
  modulo 256; the increments of the handshake and of the package-begin frame are not.
  With the sequence number at 252 when the session starts, the package-begin frame is
  sent with 255, the counter becomes 256, and the next \<open>send_lt_frame\<close> raises
  \<open>ValueError\<close> in \<open>bytes([0x02, 0x04, 256])\<close>: no chunk is sent.
\<close>

theorem handshake_increment_overflows:
  "map_option (\<lambda>g. (lt_seq_no g, last (debug_text g), progress g, is_open (port g)))
     (run_installer (Suc n)
       (wire_spec [0x17, 0x01] [] @ wire_spec [0x03, 0x05, 252, 0x01] []
        @ wire_spec [0x02, 0x04, 0x00] [] @ wire_spec [0x03, 0x05, 253, 0x01] []
        @ wire_spec [0x02, 0x04, 0x01] [] @ wire_spec [0x03, 0x05, 254, 0x01] []
        @ wire_spec [0x02, 0x04, 0x02] [] @ wire_spec [0x03, 0x05, 255, 0x01] [])
       ((new_installer ''COM1'' [(''a.pkg'', [0x41])])\<lparr>lt_seq_no := 252\<rparr>))
   = Some (256, ''ERROR: bytes must be in range(0, 256)'', [], True)"
  by (simp add: run_installer_def new_installer_def session_def log_def send_and_wait_def
      send_package_def send_lt_frame_def send_la_frame_def bytes_def to_bytes4_def
      recv_frame_lit recv_frame_lit1 send_frame_eq getitem_def payload_of_def Let_def
      py_range_one pad4_single slice_def MAX_INFO_LEN_def)

section \<open>The progress value\<close>

text \<open>
  Claim C9 (the code departs from it). The value assigned after a chunk is acknowledged
  is \<open>(i / f_len) * 100\<close> for the offset \<open>i\<close> at which the chunk starts, not for the
  octets sent so far: a session that uploads a package of one octet and finishes has
  reported the single value 0.
\<close>

theorem progress_reports_chunk_start:
  "map_option (\<lambda>g. (progress g, last (debug_text g), lt_seq_no g, is_open (port g)))
     (run_installer (Suc n)
       (wire_spec [0x17, 0x01] [] @ wire_spec [0x03, 0x05, 0, 0x01] []
        @ wire_spec [0x02, 0x04, 0x00] [] @ wire_spec [0x03, 0x05, 1, 0x01] []
        @ wire_spec [0x02, 0x04, 0x01] [] @ wire_spec [0x03, 0x05, 2, 0x01] []
        @ wire_spec [0x02, 0x04, 0x02] [] @ wire_spec [0x03, 0x05, 3, 0x01] []
        @ wire_spec [0x03, 0x05, 4, 0x01] [])
       (new_installer ''COM1'' [(''a.pkg'', [0x41])]))
   = Some ([0], ''Session Finished.'', 5, False)"
  by (simp add: run_installer_def new_installer_def session_def log_def send_and_wait_def
      send_package_def send_lt_frame_def send_la_frame_def bytes_def to_bytes4_def
      recv_frame_lit recv_frame_lit1 send_frame_eq getitem_def payload_of_def Let_def
      py_range_one pad4_single slice_def MAX_INFO_LEN_def port_close_def)

section \<open>Acknowledging dock frames while waiting\<close>

lemma recv_frame_split:
  "recv_frame p = (fst (recv_bytes (rx p)), p\<lparr>rx := snd (recv_bytes (rx p))\<rparr>)"
  by (simp add: recv_frame_def recv_bytes_def Let_def split: option.splits prod.splits)

lemma uint_byte_lt: "uint (s::byte) < 256"
  using uint_lt2p [of s] by simp

lemma send_la_frame_eq:
  "send_la_frame (uint (s::byte)) p = Done (p\<lparr>tx := tx p @ wire_spec [0x03, 0x05, s, 0x01] []\<rparr>)"
  by (simp add: send_la_frame_def bytes_def uint_byte_lt send_frame_eq payload_of_def)

lemma wait_la_frame_step:
  assumes "wait_la_frame (Suc fuel) seq p = Some (Done p')"
    and "recv_frame p = (r, p1)"
  shows "(acks seq r \<and> p' = p1)
       \<or> (\<not> acks seq r
           \<and> wait_la_frame fuel seq (p1\<lparr>tx := tx p1 @ la_reply r\<rparr>) = Some (Done p'))"
proof (cases r)
  case None
  then show ?thesis using assms by (simp add: acks_def la_reply_def)
next
  case (Some f)
  show ?thesis
  proof (cases "length f < 2")
    case True
    then show ?thesis using assms Some
      by (cases "f = []") (simp_all add: acks_def la_reply_def getitem_def)
  next
    case False
    then have f: "f \<noteq> []" "1 < length f" by auto
    show ?thesis
    proof (cases "length f < 3")
      case True
      then show ?thesis using assms Some f
        by (auto simp add: acks_def la_reply_def getitem_def split: if_splits)
    next
      case False
      then show ?thesis using assms Some f
        by (auto simp add: acks_def la_reply_def getitem_def send_la_frame_eq split: if_splits)
    qed
  qed
qed


lemma recv_frames_length [simp]: "length (recv_frames n inp) = n"
  by (induction n arbitrary: inp) simp_all

text \<open>
  Claim C8. When \<open>wait_la_frame\<close> returns, it has called \<open>recv_frame\<close> some \<open>n\<close> times;
  what it has written to the port in the meantime is exactly, in the order of arrival,
  one acknowledgement \<open>03 05 s 01\<close> for every dock frame (tag \<open>0x04\<close>, sequence number
  \<open>s\<close>) among the \<open>n\<close> results, all of them written before it returns; the last
  result is an acknowledgement frame (tag \<open>0x05\<close>) whose sequence number is the one
  waited for, and no earlier result is.
\<close>

theorem wait_la_frame_acknowledges_docks:
  assumes "wait_la_frame fuel seq p = Some (Done p')"
  shows "\<exists>n. 0 < n \<and> n \<le> fuel
           \<and> rx p' = rx_after n (rx p)
           \<and> tx p' = tx p @ concat (map la_reply (recv_frames n (rx p)))
           \<and> is_open p' = is_open p
           \<and> acks seq (last (recv_frames n (rx p)))
           \<and> (\<forall>r \<in> set (butlast (recv_frames n (rx p))). \<not> acks seq r)"
  using assms
proof (induction fuel arbitrary: p)
  case 0
  then show ?case by simp
next
  case (Suc fuel)
  define r where "r = fst (recv_bytes (rx p))"
  define p1 where "p1 = p\<lparr>rx := snd (recv_bytes (rx p))\<rparr>"
  have rf: "recv_frame p = (r, p1)" by (simp add: recv_frame_split r_def p1_def)
  from wait_la_frame_step [OF Suc.prems rf]
  consider (stop) "acks seq r" "p' = p1"
    | (go) "\<not> acks seq r"
        "wait_la_frame fuel seq (p1\<lparr>tx := tx p1 @ la_reply r\<rparr>) = Some (Done p')"
    by blast
  then show ?case
  proof cases
    case stop
    have "recv_frames (Suc 0) (rx p) = [r]" by (simp add: r_def)
    moreover have "la_reply r = []" using stop(1)
      by (auto simp add: acks_def la_reply_def split: option.splits)
    moreover have "rx_after (Suc 0) (rx p) = rx p1" by (simp add: p1_def)
    ultimately have
      "0 < Suc 0 \<and> Suc 0 \<le> Suc fuel
           \<and> rx p' = rx_after (Suc 0) (rx p)
           \<and> tx p' = tx p @ concat (map la_reply (recv_frames (Suc 0) (rx p)))
           \<and> is_open p' = is_open p
           \<and> acks seq (last (recv_frames (Suc 0) (rx p)))
           \<and> (\<forall>r \<in> set (butlast (recv_frames (Suc 0) (rx p))). \<not> acks seq r)"
      using stop by (simp add: p1_def)
    then show ?thesis by blast
  next
    case go
    let ?p2 = "p1\<lparr>tx := tx p1 @ la_reply r\<rparr>"
    from Suc.IH [OF go(2)] obtain n where n:
      "0 < n" "n \<le> fuel"
      "rx p' = rx_after n (rx ?p2)"
      "tx p' = tx ?p2 @ concat (map la_reply (recv_frames n (rx ?p2)))"
      "is_open p' = is_open ?p2"
      "acks seq (last (recv_frames n (rx ?p2)))"
      "\<forall>r \<in> set (butlast (recv_frames n (rx ?p2))). \<not> acks seq r"
      by blast
    have x: "rx ?p2 = snd (recv_bytes (rx p))" by (simp add: p1_def)
    have ne: "recv_frames n (snd (recv_bytes (rx p))) \<noteq> []"
      using n(1) by (metis recv_frames_length length_0_conv less_numeral_extra(3))
    have fr: "recv_frames (Suc n) (rx p) = r # recv_frames n (snd (recv_bytes (rx p)))"
      by (simp add: r_def)
    have "0 < Suc n \<and> Suc n \<le> Suc fuel
           \<and> rx p' = rx_after (Suc n) (rx p)
           \<and> tx p' = tx p @ concat (map la_reply (recv_frames (Suc n) (rx p)))
           \<and> is_open p' = is_open p
           \<and> acks seq (last (recv_frames (Suc n) (rx p)))
           \<and> (\<forall>r \<in> set (butlast (recv_frames (Suc n) (rx p))). \<not> acks seq r)"
      unfolding fr using n go(1) ne unfolding x by (simp add: p1_def)
    then show ?thesis by blast
  qed
qed


theorem wait_la_frame_acknowledges_docks_witness:
  "wait_la_frame (Suc (Suc (Suc 0))) 7
     \<lparr>rx = wire_spec [0x02, 0x04, 0x09] [0xAA] @ wire_spec [0x03, 0x05, 0x06, 0x01] []
            @ wire_spec [0x03, 0x05, 0x07, 0x01] [],
      tx = [], is_open = True\<rparr>
     = Some (Done \<lparr>rx = [], tx = wire_spec [0x03, 0x05, 0x09, 0x01] [], is_open = True\<rparr>)
   \<and> (\<exists>n. 0 < n \<and> n \<le> Suc (Suc (Suc 0))
         \<and> [] = rx_after n
                (wire_spec [0x02, 0x04, 0x09] [0xAA] @ wire_spec [0x03, 0x05, 0x06, 0x01] []
                 @ wire_spec [0x03, 0x05, 0x07, 0x01] [])
         \<and> wire_spec [0x03, 0x05, 0x09, 0x01] []
             = concat (map la_reply (recv_frames n
                (wire_spec [0x02, 0x04, 0x09] [0xAA] @ wire_spec [0x03, 0x05, 0x06, 0x01] []
                 @ wire_spec [0x03, 0x05, 0x07, 0x01] [])))
         \<and> acks 7 (last (recv_frames n
                (wire_spec [0x02, 0x04, 0x09] [0xAA] @ wire_spec [0x03, 0x05, 0x06, 0x01] []
                 @ wire_spec [0x03, 0x05, 0x07, 0x01] []))))"
proof -
  let ?inp = "wire_spec [0x02, 0x04, 0x09] [0xAA] @ wire_spec [0x03, 0x05, 0x06, 0x01] []
                 @ wire_spec [0x03, 0x05, 0x07, 0x01] []"
  let ?P = "\<lparr>rx = ?inp, tx = [], is_open = True\<rparr>"
  let ?P' = "\<lparr>rx = [], tx = wire_spec [0x03, 0x05, 0x09, 0x01] [], is_open = True\<rparr>"
  have e: "wait_la_frame (Suc (Suc (Suc 0))) 7 ?P = Some (Done ?P')"
    by (simp add: recv_frame_lit recv_frame_lit1 getitem_def send_la_frame_def bytes_def
        send_frame_eq payload_of_def)
  have t: "\<exists>n. 0 < n \<and> n \<le> Suc (Suc (Suc 0))
         \<and> [] = rx_after n ?inp
         \<and> wire_spec [0x03, 0x05, 0x09, 0x01] [] = concat (map la_reply (recv_frames n ?inp))
         \<and> acks 7 (last (recv_frames n ?inp))"
    using wait_la_frame_acknowledges_docks [OF e]
    by (simp only: serial_port.simps append_Nil) blast
  from e t show ?thesis by (rule conjI)
qed

section \<open>The checksum detects a changed octet\<close>

lemma bit16_word: "\<not> bit (v::16 word) 16"
  using bit_imp_le_length [of v 16] by auto

lemma bit15_step: "bit (crc_step_spec v b) 15 = (bit v 0 \<noteq> b)"
  by (simp add: crc_step_spec_def bit_simps bit16_word)

lemma xor_cancel_right: "(a::16 word) XOR c = b XOR c \<Longrightarrow> a = b"
proof -
  assume e: "a XOR c = b XOR c"
  have "a = (a XOR c) XOR c" by (simp add: xor.assoc)
  also have "\<dots> = (b XOR c) XOR c" by (simp only: e)
  also have "\<dots> = b" by (simp add: xor.assoc)
  finally show ?thesis .
qed

lemma drop1_inj:
  assumes "bit (v::16 word) 0 = bit v' 0" "drop_bit 1 v = drop_bit 1 v'"
  shows "v = v'"
proof (rule bit_word_eqI)
  fix n assume "n < LENGTH(16)"
  show "bit v n = bit v' n"
  proof (cases n)
    case 0
    then show ?thesis using assms(1) by simp
  next
    case (Suc m)
    have "bit v (Suc m) = bit (drop_bit 1 v) m" by (simp add: bit_simps)
    also have "\<dots> = bit (drop_bit 1 v') m" by (simp only: assms(2))
    also have "\<dots> = bit v' (Suc m)" by (simp add: bit_simps)
    finally show ?thesis using Suc by simp
  qed
qed

lemma crc_step_inj:
  assumes "crc_step_spec v b = crc_step_spec v' b"
  shows "v = v'"
proof -
  have c: "bit v 0 = bit v' 0"
    using bit15_step [of v b] bit15_step [of v' b] assms by auto
  have "drop_bit 1 v = drop_bit 1 v'"
    using assms c by (auto simp add: crc_step_spec_def split: if_splits dest: xor_cancel_right)
  with c show ?thesis by (rule drop1_inj)
qed

lemma crc_step_xor:
  "crc_step_spec (v XOR x) False = crc_step_spec v (bit x 0) XOR drop_bit 1 x"
  by (simp add: crc_step_spec_def bit_simps ac_simps bit_0 even_xor_iff)


lemma crc_rounds_xor: "crc_rounds n (v XOR x) 0 = crc_rounds n v x XOR drop_bit n x"
proof (induction n arbitrary: v x)
  case 0
  then show ?case by simp
next
  case (Suc n)
  have "crc_rounds (Suc n) (v XOR x) 0 = crc_rounds n (crc_step_spec (v XOR x) False) 0"
    by simp
  also have "\<dots> = crc_rounds n (crc_step_spec v (bit x 0) XOR drop_bit 1 x) 0"
    by (simp only: crc_step_xor)
  also have "\<dots> = crc_rounds n (crc_step_spec v (bit x 0)) (drop_bit 1 x)
                    XOR drop_bit n (drop_bit 1 x)"
    by (rule Suc.IH)
  finally show ?case by simp
qed

lemma crc_rounds_inj: "crc_rounds n v x = crc_rounds n v' x \<Longrightarrow> v = v'"
proof (induction n arbitrary: v v' x)
  case 0
  then show ?case by simp
next
  case (Suc n)
  then have "crc_step_spec v (bit x 0) = crc_step_spec v' (bit x 0)" by simp
  then show ?case by (rule crc_step_inj)
qed

lemma fold_crc_rounds:
  "fold (\<lambda>j v. crc_step_spec v (bit x j)) [k..<k + n] v = crc_rounds n v (drop_bit k x)"
proof (induction n arbitrary: k v)
  case 0
  then show ?case by simp
next
  case (Suc n)
  have u: "[k..<k + Suc n] = k # [Suc k..<Suc k + n]"
    by (simp add: upt_rec)
  have b: "bit (drop_bit k x) 0 = bit x k" by (simp add: bit_simps)
  have d: "drop_bit 1 (drop_bit k x) = drop_bit (Suc k) x" by simp
  show ?case
    unfolding u by (simp only: fold_simps Suc.IH crc_rounds.simps b d)
qed

lemma bit_ucast_byte: "bit (ucast (octet::byte) :: 16 word) j = bit octet j"
  by (auto simp add: bit_simps dest: bit_imp_le_length)

lemma crc_update_rounds: "crc_update_spec v octet = crc_rounds 8 v (ucast octet)"
  using fold_crc_rounds [of "ucast octet" 0 8 v]
  by (simp add: crc_update_spec_def bit_ucast_byte)


lemma crc_update_inj_state:
  "crc_update_spec v octet = crc_update_spec v' octet \<Longrightarrow> v = v'"
  unfolding crc_update_rounds by (rule crc_rounds_inj)

lemma xor_cancel_left: "(c::16 word) XOR a = c XOR b \<Longrightarrow> a = b"
  using xor_cancel_right [of a c b] by (simp add: xor.commute)

lemma ucast_byte_inj: "(ucast (a::byte) :: 16 word) = ucast b \<Longrightarrow> a = b"
proof (rule bit_word_eqI)
  fix n
  assume e: "(ucast a :: 16 word) = ucast b"
  have "bit a n = bit (ucast a :: 16 word) n" by (simp only: bit_ucast_byte)
  also have "\<dots> = bit (ucast b :: 16 word) n" by (simp only: e)
  also have "\<dots> = bit b n" by (simp only: bit_ucast_byte)
  finally show "bit a n = bit b n" .
qed

lemma crc_update_inj_octet:
  assumes "crc_update_spec v a = crc_update_spec v b"
  shows "a = b"
proof -
  have z: "drop_bit 8 (ucast (c::byte) :: 16 word) = 0" for c
    by (rule bit_word_eqI) (auto simp add: bit_simps dest: bit_imp_le_length)
  have x: "crc_rounds 8 (v XOR ucast c) 0 = crc_update_spec v c" for c :: byte
    by (simp only: crc_rounds_xor crc_update_rounds z xor.right_neutral)
  have "crc_rounds 8 (v XOR ucast a) 0 = crc_rounds 8 (v XOR ucast b) 0"
    using assms by (simp only: x)
  then have "v XOR ucast a = v XOR ucast b" by (rule crc_rounds_inj)
  then have "(ucast a :: 16 word) = ucast b" by (rule xor_cancel_left)
  then show ?thesis by (rule ucast_byte_inj)
qed

lemma checksum_state_inj:
  "fold (\<lambda>b v. crc_update_spec v b) bs v = fold (\<lambda>b v. crc_update_spec v b) bs v' \<Longrightarrow> v = v'"
proof (induction bs arbitrary: v v')
  case Nil
  then show ?case by simp
next
  case (Cons b bs)
  then have "crc_update_spec v b = crc_update_spec v' b" by simp
  then show ?case by (rule crc_update_inj_state)
qed

lemma checksum_single_octet:
  assumes "fold (\<lambda>b v. crc_update_spec v b) (xs @ a # ys) v
         = fold (\<lambda>b v. crc_update_spec v b) (xs @ b # ys) v"
  shows "a = b"
proof -
  let ?w = "fold (\<lambda>b v. crc_update_spec v b) xs v"
  have "fold (\<lambda>b v. crc_update_spec v b) ys (crc_update_spec ?w a)
      = fold (\<lambda>b v. crc_update_spec v b) ys (crc_update_spec ?w b)"
    using assms by simp
  then have "crc_update_spec ?w a = crc_update_spec ?w b" by (rule checksum_state_inj)
  then show ?thesis by (rule crc_update_inj_octet)
qed

section \<open>Corrupting one transmitted octet\<close>

lemma word16_split:
  assumes "uint (a::16 word) mod 256 = uint b mod 256" "uint a div 256 = uint b div 256"
  shows "a = b"
proof -
  have "uint a = 256 * (uint a div 256) + uint a mod 256" by simp
  also have "\<dots> = 256 * (uint b div 256) + uint b mod 256" by (simp only: assms)
  also have "\<dots> = uint b" by simp
  finally show ?thesis by (rule word_uint_eqI)
qed

lemma recv_frame_wrong_checksum:
  assumes "c \<noteq> frame_checksum_spec h pl"
  shows "fst (recv_frame (q\<lparr>rx := [0x16, 0x10, 0x02] @ stuff h @ stuff pl
            @ [0x10, 0x03, ucast c, ucast (drop_bit 8 c)] @ rest\<rparr>)) = None"
proof -
  let ?c' = "frame_checksum_spec h pl"
  have "uint ?c' mod 256 \<noteq> uint c mod 256 \<or> uint ?c' div 256 \<noteq> uint c div 256"
    using assms word16_split [of c ?c'] by auto
  then show ?thesis
    by (auto simp add: recv_frame_def read_body_wire uint_lo uint_hi_mod Let_def)
qed

lemma stuff_update:
  assumes "i < length bs" "bs ! i \<noteq> 0x10" "b \<noteq> 0x10"
  shows "(stuff bs)[length (stuff (take i bs)) := b] = stuff (bs[i := b])"
    and "stuff bs ! length (stuff (take i bs)) = bs ! i"
    and "length (stuff (take i bs)) < length (stuff bs)"
proof -
  have e: "bs = take i bs @ bs ! i # drop (Suc i) bs"
    using assms(1) by (rule id_take_nth_drop)
  have u: "bs[i := b] = take i bs @ b # drop (Suc i) bs"
    using assms(1) by (rule upd_conv_take_nth_drop)
  have s: "stuff bs = stuff (take i bs) @ bs ! i # stuff (drop (Suc i) bs)"
    using assms(2) by (subst e) (simp del: append_take_drop_id)
  have t: "stuff (bs[i := b]) = stuff (take i bs) @ b # stuff (drop (Suc i) bs)"
    unfolding u using assms(3) by simp
  show "(stuff bs)[length (stuff (take i bs)) := b] = stuff (bs[i := b])"
    unfolding t by (subst s) simp
  show "stuff bs ! length (stuff (take i bs)) = bs ! i"
    by (subst s) simp
  have "length (stuff bs) = length (stuff (take i bs)) + Suc (length (stuff (drop (Suc i) bs)))"
    by (subst s) simp
  then show "length (stuff (take i bs)) < length (stuff bs)"
    by simp
qed

lemma stuff_index:
  "k < length (stuff bs) \<Longrightarrow> stuff bs ! k \<noteq> 0x10 \<Longrightarrow>
   \<exists>i<length bs. k = length (stuff (take i bs)) \<and> bs ! i = stuff bs ! k"
proof (induction bs arbitrary: k)
  case Nil
  then show ?case by simp
next
  case (Cons x xs)
  show ?case
  proof (cases "x = 0x10")
    case True
    with Cons.prems have k: "2 \<le> k"
      by (cases k; cases "k - 1") auto
    define k' where "k' = k - 2"
    have kk: "k = Suc (Suc k')" using k by (simp add: k'_def)
    from Cons.prems True have "k' < length (stuff xs)" "stuff xs ! k' \<noteq> 0x10"
      by (simp_all add: kk)
    from Cons.IH [OF this] obtain i where
      i: "i < length xs" "k' = length (stuff (take i xs))" "xs ! i = stuff xs ! k'"
      by blast
    have "Suc i < length (x # xs) \<and> k = length (stuff (take (Suc i) (x # xs)))
        \<and> (x # xs) ! Suc i = stuff (x # xs) ! k"
      using i True by (simp add: kk)
    then show ?thesis by blast
  next
    case False
    show ?thesis
    proof (cases k)
      case 0
      then have "0 < length (x # xs) \<and> k = length (stuff (take 0 (x # xs)))
        \<and> (x # xs) ! 0 = stuff (x # xs) ! k"
        using False by simp
      then show ?thesis by blast
    next
      case (Suc k')
      from Cons.prems False have "k' < length (stuff xs)" "stuff xs ! k' \<noteq> 0x10"
        by (simp_all add: Suc)
      from Cons.IH [OF this] obtain i where
        i: "i < length xs" "k' = length (stuff (take i xs))" "xs ! i = stuff xs ! k'"
        by blast
      have "Suc i < length (x # xs) \<and> k = length (stuff (take (Suc i) (x # xs)))
        \<and> (x # xs) ! Suc i = stuff (x # xs) ! k"
        using i False by (simp add: Suc)
      then show ?thesis by blast
    qed
  qed
qed

lemma scan_stuff_tail:
  "st \<le> 1 \<Longrightarrow> scan_start st (stuff bs @ [0x10, 0x03, lo, hi]) = None"
proof (induction bs arbitrary: st)
  case Nil
  then have "st = 0 \<or> st = 1" by auto
  then show ?case by (elim disjE) simp_all
next
  case (Cons x xs)
  from Cons.prems have "st = 0 \<or> st = 1" by auto
  then show ?case
    by (elim disjE) (simp_all add: Cons.IH)
qed

lemma read_tail_first:
  "b \<noteq> 0x10 \<Longrightarrow>
   read_body 0 w fd [b, 0x03, lo, hi] = None
   \<or> (\<exists>w' fd' r. read_body 0 w fd [b, 0x03, lo, hi] = Some (w', fd', r) \<and> length r < 2)"
  by simp

lemma read_tail_second:
  "b \<noteq> 0x03 \<Longrightarrow>
   read_body 0 w fd [0x10, b, lo, hi] = None
   \<or> (\<exists>w' fd' r. read_body 0 w fd [0x10, b, lo, hi] = Some (w', fd', r) \<and> length r < 2)"
  by simp

lemma recv_frame_short:
  assumes "scan_start 0 inp = Some inp'"
    and "read_body 0 0 [] inp' = None
         \<or> (\<exists>w fd r. read_body 0 0 [] inp' = Some (w, fd, r) \<and> length r < 2)"
  shows "fst (recv_frame (q\<lparr>rx := inp\<rparr>)) = None"
  using assms by (auto simp add: recv_frame_def Let_def)

lemma recv_frame_no_marker:
  assumes "scan_start 0 inp = None"
  shows "fst (recv_frame (q\<lparr>rx := inp\<rparr>)) = None"
  using assms by (simp add: recv_frame_def)

lemma wire_spec_alt:
  "wire_spec h pl = [0x16, 0x10, 0x02] @ stuff (h @ pl)
      @ [0x10, 0x03, ucast (frame_checksum_spec h pl),
         ucast (drop_bit 8 (frame_checksum_spec h pl))]"
  by (simp add: wire_spec_def)

lemma wire_spec_length: "length (wire_spec h pl) = length (stuff (h @ pl)) + 7"
  by (simp add: wire_spec_alt)

lemma corrupt_start:
  assumes "j < 3" "b \<noteq> wire_spec h pl ! j"
  shows "fst (recv_frame (q\<lparr>rx := (wire_spec h pl)[j := b]\<rparr>)) = None"
proof -
  let ?t = "stuff (h @ pl) @ [0x10, 0x03, ucast (frame_checksum_spec h pl),
         ucast (drop_bit 8 (frame_checksum_spec h pl))]"
  have w: "wire_spec h pl = 0x16 # 0x10 # 0x02 # ?t" by (simp add: wire_spec_alt)
  from assms(1) have "j = 0 \<or> j = 1 \<or> j = 2" by auto
  then have "scan_start 0 ((wire_spec h pl)[j := b]) = scan_start 0 ?t"
    using assms(2) unfolding w by (elim disjE) simp_all
  also have "\<dots> = None" by (rule scan_stuff_tail) simp
  finally show ?thesis by (rule recv_frame_no_marker)
qed

lemma upd_tail0:
  "(a # b # c # s @ [e1, e2, lo, hi])[length s + 3 := x] = a # b # c # (s @ [x, e2, lo, hi])"
  by (simp add: list_update_append numeral_3_eq_3)

lemma upd_tail1:
  "(a # b # c # s @ [e1, e2, lo, hi])[length s + 4 := x] = a # b # c # (s @ [e1, x, lo, hi])"
  by (simp add: list_update_append eval_nat_numeral)

lemma nth_tail0: "(a # b # c # s @ [e1, e2, lo, hi]) ! (length s + 3) = e1"
  by (simp add: nth_append numeral_3_eq_3)

lemma nth_tail1: "(a # b # c # s @ [e1, e2, lo, hi]) ! (length s + 4) = e2"
  by (simp add: nth_append eval_nat_numeral)

lemma upd_mid:
  "k < length s \<Longrightarrow> (a # b # c # s @ t)[3 + k := x] = a # b # c # (s[k := x] @ t)"
  by (simp add: list_update_append numeral_3_eq_3)

lemma nth_mid: "k < length s \<Longrightarrow> (a # b # c # s @ t) ! (3 + k) = s ! k"
  by (simp add: nth_append numeral_3_eq_3)

lemma corrupt_end:
  assumes "j = length (stuff (h @ pl)) + 3 \<or> j = length (stuff (h @ pl)) + 4"
    and "b \<noteq> wire_spec h pl ! j"
  shows "fst (recv_frame (q\<lparr>rx := (wire_spec h pl)[j := b]\<rparr>)) = None"
proof -
  let ?lo = "ucast (frame_checksum_spec h pl) :: byte"
  let ?hi = "ucast (drop_bit 8 (frame_checksum_spec h pl)) :: byte"
  define s where "s = stuff (h @ pl)"
  have w: "wire_spec h pl = 0x16 # 0x10 # 0x02 # s @ [0x10, 0x03, ?lo, ?hi]"
    by (simp add: wire_spec_alt s_def)
  have rb: "read_body 0 0 [] (s @ t) = read_body 0 (fcs_fold (h @ pl) 0) (h @ pl) t" for t
    unfolding s_def using read_body_stuff [of 0 "[]" "h @ pl" t] by simp
  from assms(1) show ?thesis unfolding s_def [symmetric]
  proof
    assume j: "j = length s + 3"
    have b: "b \<noteq> 0x10" using assms(2) unfolding w j nth_tail0 .
    have sc: "scan_start 0 ((wire_spec h pl)[j := b]) = Some (s @ [b, 0x03, ?lo, ?hi])"
      unfolding w j upd_tail0 by simp
    show ?thesis
      by (rule recv_frame_short [OF sc]) (unfold rb, rule read_tail_first [OF b])
  next
    assume j: "j = length s + 4"
    have b: "b \<noteq> 0x03" using assms(2) unfolding w j nth_tail1 .
    have sc: "scan_start 0 ((wire_spec h pl)[j := b]) = Some (s @ [0x10, b, ?lo, ?hi])"
      unfolding w j upd_tail1 by simp
    show ?thesis
      by (rule recv_frame_short [OF sc]) (unfold rb, rule read_tail_second [OF b])
  qed
qed

lemma corrupt_body:
  assumes "3 \<le> j" "j < length (stuff (h @ pl)) + 3"
    and "wire_spec h pl ! j \<noteq> 0x10" "b \<noteq> 0x10" "b \<noteq> wire_spec h pl ! j"
  shows "fst (recv_frame (q\<lparr>rx := (wire_spec h pl)[j := b] @ rest\<rparr>)) = None"
proof -
  let ?body = "h @ pl"
  let ?c = "frame_checksum_spec h pl"
  let ?tail = "[0x10, 0x03, ucast ?c, ucast (drop_bit 8 ?c)] :: byte list"
  define s where "s = stuff ?body"
  define k where "k = j - 3"
  have j: "j = 3 + k" using assms(1) by (simp add: k_def)
  have k: "k < length s" using assms(2) by (simp add: j s_def)
  have w: "wire_spec h pl = 0x16 # 0x10 # 0x02 # s @ ?tail"
    by (simp add: wire_spec_alt s_def)
  have n: "wire_spec h pl ! j = s ! k"
    unfolding w j using k by (rule nth_mid)
  from stuff_index [of k ?body] k assms(3) n obtain i where
    i: "i < length ?body" "k = length (stuff (take i ?body))" "?body ! i = s ! k"
    unfolding s_def by auto
  have ne: "?body ! i \<noteq> 0x10" "b \<noteq> ?body ! i"
    using assms(3,5) n i(3) by simp_all
  have su: "s[k := b] = stuff (?body[i := b])"
    unfolding i(2) s_def by (rule stuff_update(1) [OF i(1) ne(1) assms(4)])
  have u: "(wire_spec h pl)[j := b] @ rest
      = [0x16, 0x10, 0x02] @ stuff (?body[i := b]) @ stuff [] @ ?tail @ rest"
    unfolding w j upd_mid [OF k] su by simp
  have "frame_checksum_spec (?body[i := b]) [] \<noteq> ?c"
  proof
    assume e: "frame_checksum_spec (?body[i := b]) [] = ?c"
    have b1: "?body = take i ?body @ ?body ! i # drop (Suc i) ?body"
      using i(1) by (rule id_take_nth_drop)
    have b2: "?body[i := b] = take i ?body @ b # drop (Suc i) ?body"
      using i(1) by (rule upd_conv_take_nth_drop)
    have c1: "?c = fold (\<lambda>b v. crc_update_spec v b)
            (take i ?body @ ?body ! i # (drop (Suc i) ?body @ [0x03])) 0"
    proof -
      have "?c = fold (\<lambda>b v. crc_update_spec v b) (?body @ [0x03]) 0"
        by (simp add: frame_checksum_spec_def)
      also have "?body @ [0x03] = take i ?body @ ?body ! i # (drop (Suc i) ?body @ [0x03])"
        by (subst b1) (simp del: append_take_drop_id)
      finally show ?thesis .
    qed
    have c2: "frame_checksum_spec (?body[i := b]) []
        = fold (\<lambda>b v. crc_update_spec v b) (take i ?body @ b # (drop (Suc i) ?body @ [0x03])) 0"
      unfolding frame_checksum_spec_def b2 by simp
    from e have "b = ?body ! i" unfolding c1 c2 by (rule checksum_single_octet)
    with ne(2) show False by simp
  qed
  then have "?c \<noteq> frame_checksum_spec (?body[i := b]) []" by simp
  from recv_frame_wrong_checksum [OF this, where q = q and rest = rest]
  show ?thesis unfolding u .
qed

text \<open>
  Claim C6, as amended. The frame has no length field, so a corruption that creates or
  removes an escape octet moves the end of the frame, and the decoder can then accept a
  different frame whose checksum happens to follow (the counterexample below). For every
  other corruption of one octet before the checksum field the decoder fails on the
  corrupted frame: the start marker is not found, or the input ends before the frame is
  complete, or, for a header or payload octet, the checksum does not match.
\<close>

theorem single_byte_corruption_detected:
  assumes "j < length (wire_spec head (payload_of info)) - 2"
    and "b \<noteq> wire_spec head (payload_of info) ! j"
    and "3 \<le> j \<and> j < 3 + length (stuff (head @ payload_of info))
         \<longrightarrow> wire_spec head (payload_of info) ! j \<noteq> 0x10 \<and> b \<noteq> 0x10"
  shows "send_frame head info p = Done (p\<lparr>tx := tx p @ wire_spec head (payload_of info)\<rparr>)
       \<and> fst (recv_frame (q\<lparr>rx := (wire_spec head (payload_of info))[j := b]\<rparr>)) = None"
proof
  show "send_frame head info p = Done (p\<lparr>tx := tx p @ wire_spec head (payload_of info)\<rparr>)"
    by (rule send_frame_eq)
next
  let ?pl = "payload_of info"
  let ?n = "length (stuff (head @ ?pl))"
  from assms(1) have j: "j < ?n + 5" by (simp add: wire_spec_length)
  consider (start) "j < 3" | (body) "3 \<le> j" "j < ?n + 3" | (tail) "j = ?n + 3 \<or> j = ?n + 4"
    using j by linarith
  then show "fst (recv_frame (q\<lparr>rx := (wire_spec head ?pl)[j := b]\<rparr>)) = None"
  proof cases
    case start
    then show ?thesis using assms(2) by (rule corrupt_start)
  next
    case body
    with assms(3) have "wire_spec head ?pl ! j \<noteq> 0x10" "b \<noteq> 0x10" by simp_all
    from corrupt_body [OF body this assms(2), where q = q and rest = "[]"]
    show ?thesis by simp
  next
    case tail
    then show ?thesis using assms(2) by (rule corrupt_end)
  qed
qed


theorem single_byte_corruption_detected_witness:
  "wire_spec [0x41, 0x10] [] = [0x16, 0x10, 0x02, 0x41, 0x10, 0x10, 0x10, 0x03, 0x1D, 0xD5]
   \<and> (3::nat) < length (wire_spec [0x41, 0x10] []) - 2
   \<and> (0x42::byte) \<noteq> wire_spec [0x41, 0x10] [] ! 3
   \<and> wire_spec [0x41, 0x10] [] ! 3 \<noteq> 0x10
   \<and> fst (recv_frame
          \<lparr>rx = [0x16, 0x10, 0x02, 0x42, 0x10, 0x10, 0x10, 0x03, 0x1D, 0xD5],
           tx = [], is_open = True\<rparr>) = None"
proof -
  let ?w = "wire_spec [0x41, 0x10] (payload_of None)"
  have w: "wire_spec [0x41, 0x10] [] = [0x16, 0x10, 0x02, 0x41, 0x10, 0x10, 0x10, 0x03, 0x1D, 0xD5]"
    by code_simp
  have p: "payload_of None = []" by (simp add: payload_of_def)
  have a: "3 < length ?w - 2" unfolding p w by simp
  have b: "(0x42::byte) \<noteq> ?w ! 3" unfolding p w by simp
  have c: "3 \<le> (3::nat) \<and> 3 < 3 + length (stuff ([0x41, 0x10] @ payload_of None))
         \<longrightarrow> ?w ! 3 \<noteq> 0x10 \<and> (0x42::byte) \<noteq> 0x10"
    unfolding p w by simp
  from single_byte_corruption_detected [OF a b c,
      where p = "\<lparr>rx = [], tx = [], is_open = True\<rparr>"
        and q = "\<lparr>rx = [], tx = [], is_open = True\<rparr>"]
  have "fst (recv_frame (\<lparr>rx = [], tx = [], is_open = True\<rparr>\<lparr>rx := ?w[3 := 0x42]\<rparr>)) = None"
    by (rule conjunct2)
  then have "fst (recv_frame
          \<lparr>rx = [0x16, 0x10, 0x02, 0x42, 0x10, 0x10, 0x10, 0x03, 0x1D, 0xD5],
           tx = [], is_open = True\<rparr>) = None"
    unfolding p w by simp
  with w show ?thesis by simp
qed

text \<open>
  Claim C6 as stated fails: in the frame with header \<open>41 55 03 70 51\<close> the octet \<open>55\<close>
  at position 4 of the transmitted frame is not in the checksum field; replaced by
  \<open>10\<close>, it forms an end marker with the \<open>03\<close> that follows, \<open>70 51\<close> is the checksum
  of the frame \<open>41\<close>, and \<open>recv_frame\<close> accepts that frame.
\<close>

theorem corruption_accepted_counterexample:
  "send_frame [0x41, 0x55, 0x03, 0x70, 0x51] None \<lparr>rx = [], tx = [], is_open = True\<rparr>
     = Done \<lparr>rx = [],
             tx = [0x16, 0x10, 0x02, 0x41, 0x55, 0x03, 0x70, 0x51, 0x10, 0x03, 0x7F, 0x13],
             is_open = True\<rparr>
   \<and> [0x16, 0x10, 0x02, 0x41, 0x55, 0x03, 0x70, 0x51, 0x10, 0x03, 0x7F, 0x13 :: byte][4 := 0x10]
     = [0x16, 0x10, 0x02, 0x41, 0x10, 0x03, 0x70, 0x51, 0x10, 0x03, 0x7F, 0x13]
   \<and> recv_frame
       \<lparr>rx = [0x16, 0x10, 0x02, 0x41, 0x10, 0x03, 0x70, 0x51, 0x10, 0x03, 0x7F, 0x13],
        tx = [], is_open = True\<rparr>
     = (Some [0x41], \<lparr>rx = [0x10, 0x03, 0x7F, 0x13], tx = [], is_open = True\<rparr>)"
proof (intro conjI)
  show "send_frame [0x41, 0x55, 0x03, 0x70, 0x51] None \<lparr>rx = [], tx = [], is_open = True\<rparr>
     = Done \<lparr>rx = [],
             tx = [0x16, 0x10, 0x02, 0x41, 0x55, 0x03, 0x70, 0x51, 0x10, 0x03, 0x7F, 0x13],
             is_open = True\<rparr>"
    by code_simp
  show "[0x16, 0x10, 0x02, 0x41, 0x55, 0x03, 0x70, 0x51, 0x10, 0x03, 0x7F, 0x13 :: byte][4 := 0x10]
     = [0x16, 0x10, 0x02, 0x41, 0x10, 0x03, 0x70, 0x51, 0x10, 0x03, 0x7F, 0x13]"
    by code_simp
  show "recv_frame
       \<lparr>rx = [0x16, 0x10, 0x02, 0x41, 0x10, 0x03, 0x70, 0x51, 0x10, 0x03, 0x7F, 0x13],
        tx = [], is_open = True\<rparr>
     = (Some [0x41], \<lparr>rx = [0x10, 0x03, 0x7F, 0x13], tx = [], is_open = True\<rparr>)"
    by code_simp
qed

end
